theory Spec2Isabelle
  imports Complex_Main
begin

section \<open>Leitor Fiscal: CT-e and NF-e extraction (src/app.py)\<close>

text \<open>
  A shallow embedding of \<^verbatim>\<open>src/app.py\<close>. Python \<^verbatim>\<open>str\<close> values are
  \<^typ>\<open>string\<close>s (non-ASCII characters as their UTF-8 bytes), exceptions are values of
  \<open>py_error\<close> on the left of a sum, and Python floats are exact rationals: binary64
  rounding, infinities, NaN and the negative zero are not part of the model.
\<close>

subsection \<open>Python string methods used by the source\<close>

datatype py_error =
  ValueError | AttributeError | ZeroDivisionError | OutOfBoundsDatetime | BadZipFile | KeyError

text \<open>\<^verbatim>\<open>s.replace(old, new)\<close> for a one-character \<^verbatim>\<open>old\<close> (every call of the source).\<close>

definition str_replace :: "char \<Rightarrow> string \<Rightarrow> string \<Rightarrow> string" where
  "str_replace old new s = concat (map (\<lambda>c. if c = old then new else [c]) s)"

text \<open>The ASCII characters Python's \<^verbatim>\<open>str.strip()\<close> removes: tab, line feed, vertical tab,
  form feed, carriage return, the four separators 0x1C..0x1F and the space.\<close>

definition whitespace :: string where
  "whitespace = [CHR 0x09, CHR 0x0A, CHR 0x0B, CHR 0x0C, CHR 0x0D,
                 CHR 0x1C, CHR 0x1D, CHR 0x1E, CHR 0x1F, CHR '' '']"

definition is_space :: "char \<Rightarrow> bool" where
  "is_space c = (c \<in> set whitespace)"

definition strip :: "string \<Rightarrow> string" where
  "strip s = rev (dropWhile is_space (rev (dropWhile is_space s)))"


definition lower_chr :: "char \<Rightarrow> char" where
  "lower_chr c =
     (case map_of (zip ''ABCDEFGHIJKLMNOPQRSTUVWXYZ'' ''abcdefghijklmnopqrstuvwxyz'') c of
        Some l \<Rightarrow> l | None \<Rightarrow> c)"

definition lower :: "string \<Rightarrow> string" where
  "lower s = map lower_chr s"

definition endswith :: "string \<Rightarrow> string \<Rightarrow> bool" where
  "endswith s suf = (length suf \<le> length s \<and> drop (length s - length suf) s = suf)"

subsection \<open>Decimal text and numbers\<close>

text \<open>
  \<^verbatim>\<open>float(s)\<close> is modelled for plain decimal text: surrounding whitespace, an optional
  sign, digits with an optional point, an optional exponent. Everything else raises
  \<open>ValueError\<close> in the model (Python also reads \<^verbatim>\<open>inf\<close>, \<^verbatim>\<open>nan\<close> and digit
  groups separated by underscores). \<^verbatim>\<open>f"{v:,.2f}"\<close> is \<open>format_comma_2f\<close>: the sign, the
  integer part in groups of three separated by commas, a point and two fraction digits,
  rounded half to even.
\<close>

definition digit_chars :: string where
  "digit_chars = ''0123456789''"

definition is_digit :: "char \<Rightarrow> bool" where
  "is_digit c = (c \<in> set digit_chars)"

definition digit_val :: "char \<Rightarrow> nat" where
  "digit_val c =
     (case map_of [(CHR ''0'', 0), (CHR ''1'', 1), (CHR ''2'', 2), (CHR ''3'', 3), (CHR ''4'', 4),
                   (CHR ''5'', 5), (CHR ''6'', 6), (CHR ''7'', 7), (CHR ''8'', 8), (CHR ''9'', 9)] c of
        Some d \<Rightarrow> d | None \<Rightarrow> 0)"

definition digit_chr :: "nat \<Rightarrow> char" where
  "digit_chr d = digit_chars ! (d mod 10)"

definition nat_of_digits :: "string \<Rightarrow> nat" where
  "nat_of_digits ds = foldl (\<lambda>a c. 10 * a + digit_val c) 0 ds"

fun show_nat :: "nat \<Rightarrow> string" where
  "show_nat n = (if n < 10 then [digit_chr n] else show_nat (n div 10) @ [digit_chr n])"

definition parse_mantissa :: "string \<Rightarrow> rat option" where
  "parse_mantissa s =
     (let ip = takeWhile is_digit s; rest = dropWhile is_digit s in
      case rest of
        [] \<Rightarrow> (if ip = [] then None else Some (of_nat (nat_of_digits ip)))
      | c # fp \<Rightarrow>
          (if c = CHR ''.'' \<and> list_all is_digit fp \<and> (ip \<noteq> [] \<or> fp \<noteq> [])
           then Some (of_nat (nat_of_digits ip) + of_nat (nat_of_digits fp) / 10 ^ length fp)
           else None))"

definition parse_exponent :: "string \<Rightarrow> int option" where
  "parse_exponent s =
     (let neg = (case s of c # _ \<Rightarrow> c = CHR ''-'' | [] \<Rightarrow> False);
          ds = (case s of c # r \<Rightarrow> (if c = CHR ''-'' \<or> c = CHR ''+'' then r else s) | [] \<Rightarrow> s)
      in if ds \<noteq> [] \<and> list_all is_digit ds
         then Some (if neg then - int (nat_of_digits ds) else int (nat_of_digits ds))
         else None)"

definition scale10 :: "rat \<Rightarrow> int \<Rightarrow> rat" where
  "scale10 m k = (if 0 \<le> k then m * 10 ^ nat k else m / 10 ^ nat (- k))"

definition is_exp_mark :: "char \<Rightarrow> bool" where
  "is_exp_mark c = (c = CHR ''e'' \<or> c = CHR ''E'')"

definition py_float :: "string \<Rightarrow> py_error + rat" where
  "py_float s =
     (let t = strip s;
          neg = (case t of c # _ \<Rightarrow> c = CHR ''-'' | [] \<Rightarrow> False);
          u = (case t of c # r \<Rightarrow> (if c = CHR ''-'' \<or> c = CHR ''+'' then r else t) | [] \<Rightarrow> t);
          mant = takeWhile (\<lambda>c. \<not> is_exp_mark c) u;
          rest = dropWhile (\<lambda>c. \<not> is_exp_mark c) u
      in case parse_mantissa mant of
           None \<Rightarrow> Inl ValueError
         | Some m \<Rightarrow>
             (case rest of
                [] \<Rightarrow> Inr (if neg then - m else m)
              | _ # ex \<Rightarrow>
                  (case parse_exponent ex of
                     None \<Rightarrow> Inl ValueError
                   | Some k \<Rightarrow> Inr (scale10 (if neg then - m else m) k))))"

definition round_half_even :: "rat \<Rightarrow> int" where
  "round_half_even q =
     (let f = \<lfloor>q\<rfloor>; d = q - of_int f in
      if d < 1 / 2 then f else if 1 / 2 < d then f + 1 else if even f then f else f + 1)"

definition pad2 :: "nat \<Rightarrow> string" where
  "pad2 n = [digit_chr (n div 10), digit_chr n]"

definition pad3 :: "nat \<Rightarrow> string" where
  "pad3 n = [digit_chr (n div 100), digit_chr (n div 10), digit_chr n]"

fun group_nat :: "nat \<Rightarrow> string" where
  "group_nat n =
     (if n < 1000 then show_nat n else group_nat (n div 1000) @ CHR '','' # pad3 (n mod 1000))"

definition format_comma_2f :: "rat \<Rightarrow> string" where
  "format_comma_2f v =
     (let n = nat (round_half_even (\<bar>v\<bar> * 100)) in
      (if v < 0 then ''-'' else []) @ group_nat (n div 100) @ CHR ''.'' # pad2 (n mod 100))"

subsection \<open>Field formatters\<close>


text \<open>
  \<^verbatim>\<open>
  def br_money(v: float | str) -> str:
      if isinstance(v, str): v = float(v.replace(",", "."))
      return f"{v:,.2f}".replace(",", "_").replace(".", ",").replace("_", ".")

  def br_weight(kg: float) -> str:
      return f"{kg:,.2f}".replace(",", "_").replace(".", ",").replace("_", ".")

  def str_to_float_br(s: str) -> float:
      return float(s.replace(".", "").replace(",", ".")) if s else 0.0
  \<close>
  \<open>locale_swap\<close> is the chain of three \<^verbatim>\<open>replace\<close> calls that \<^verbatim>\<open>br_money\<close> and
  \<^verbatim>\<open>br_weight\<close> share.
\<close>

datatype float_or_str = Float rat | Str string

definition locale_swap :: "string \<Rightarrow> string" where
  "locale_swap s =
     str_replace (CHR ''_'') ''.'' (str_replace (CHR ''.'') '','' (str_replace (CHR '','') ''_'' s))"

definition br_money :: "float_or_str \<Rightarrow> py_error + string" where
  "br_money v =
     (case (case v of Str s \<Rightarrow> py_float (str_replace (CHR '','') ''.'' s) | Float x \<Rightarrow> Inr x) of
        Inl e \<Rightarrow> Inl e
      | Inr x \<Rightarrow> Inr (locale_swap (format_comma_2f x)))"


definition str_to_float_br :: "string \<Rightarrow> py_error + rat" where
  "str_to_float_br s =
     (if s = [] then Inr 0
      else py_float (str_replace (CHR '','') ''.'' (str_replace (CHR ''.'') [] s)))"



text \<open>The value a two-decimal display shows: \<open>v\<close> rounded to hundredths, half to even.\<close>

definition round2 :: "rat \<Rightarrow> rat" where
  "round2 v = of_int (round_half_even (v * 100)) / 100"

subsection \<open>Results that may raise\<close>

text \<open>Running a fallible step over a list: the first exception ends the loop.\<close>

fun traverse :: "('a \<Rightarrow> 'e + 'b) \<Rightarrow> 'a list \<Rightarrow> 'e + 'b list" where
  "traverse f [] = Inr []"
| "traverse f (x # xs) =
     (case f x of
        Inl e \<Rightarrow> Inl e
      | Inr y \<Rightarrow> (case traverse f xs of Inl e \<Rightarrow> Inl e | Inr ys \<Rightarrow> Inr (y # ys)))"


subsection \<open>XML trees and ElementPath\<close>
















subsection \<open>Dates\<close>


















subsection \<open>Records as dictionaries\<close>

text \<open>A record of the source is a dict from column names to texts, in insertion order.\<close>

type_synonym row = "(string \<times> string) list"





subsection \<open>The CT-e extractor\<close>




subsection \<open>The NF-e extractor\<close>





subsection \<open>The archive loader\<close>

text \<open>
  \<^verbatim>\<open>
  def load_files(label:str, key:str):
      up = st.file_uploader(label, accept_multiple_files=True, type=["xml","zip"], key=...)
      files=[]
      if up:
          for f in up:
              if f.name.lower().endswith(".xml"):
                  files.append((f.name,f.read()))
              else:
                  ... with zipfile.ZipFile(zpath) as zf:
                          for n in zf.namelist():
                              if n.lower().endswith(".xml"):
                                  files.append((n, zf.read(n)))
      return files
  \<close>
  The uploads the widget returns are the parameter \<open>up\<close>. Reading an archive is the
  parameter \<open>unzip\<close>: the members in archive order, or \<open>None\<close> when the bytes are not an
  archive. \<^verbatim>\<open>zf.read(n)\<close> reads the last member of that name.
\<close>

type_synonym upload = "string \<times> string"

type_synonym zip_reader = "string \<Rightarrow> (string \<times> string) list option"

definition zf_read :: "(string \<times> string) list \<Rightarrow> string \<Rightarrow> py_error + string" where
  "zf_read members n = (case map_of (rev members) n of None \<Rightarrow> Inl KeyError | Some b \<Rightarrow> Inr b)"

definition is_xml_name :: "string \<Rightarrow> bool" where
  "is_xml_name n = endswith (lower n) ''.xml''"

definition read_member :: "(string \<times> string) list \<Rightarrow> string \<Rightarrow> py_error + upload" where
  "read_member members n = (case zf_read members n of Inl e \<Rightarrow> Inl e | Inr b \<Rightarrow> Inr (n, b))"

definition expand_upload :: "zip_reader \<Rightarrow> upload \<Rightarrow> py_error + upload list" where
  "expand_upload unzip f =
     (if is_xml_name (fst f) then Inr [(fst f, snd f)]
      else (case unzip (snd f) of
              None \<Rightarrow> Inl BadZipFile
            | Some members \<Rightarrow>
                traverse (read_member members) (filter is_xml_name (map fst members))))"

definition load_files :: "zip_reader \<Rightarrow> upload list \<Rightarrow> py_error + upload list" where
  "load_files unzip up =
     (case traverse (expand_upload unzip) up of Inl e \<Rightarrow> Inl e | Inr fs \<Rightarrow> Inr (concat fs))"

subsection \<open>Tabulation and join\<close>

text \<open>
  \<^verbatim>\<open>
  merged = pd.merge(df_cte, df_nfe, on="Chave NF", how="inner", suffixes=("_CTE","_NFE"))
  \<close>
  A table is the list of its rows, all with the same columns. \<open>pd_merge_inner\<close> models the
  pandas inner join: the pairs of a left and a right row with equal keys, in the order of
  the left rows; the key column once; a column name of both tables suffixed on each side.
\<close>

definition df_columns :: "row list \<Rightarrow> string list" where
  "df_columns df = (case df of [] \<Rightarrow> [] | r # _ \<Rightarrow> map fst r)"

definition rename_col :: "string \<Rightarrow> string list \<Rightarrow> string \<Rightarrow> string \<Rightarrow> string" where
  "rename_col on other suffix k = (if k \<noteq> on \<and> k \<in> set other then k @ suffix else k)"

definition merge_row ::
  "string \<Rightarrow> string list \<Rightarrow> string list \<Rightarrow> string \<Rightarrow> string \<Rightarrow> row \<Rightarrow> row \<Rightarrow> row" where
  "merge_row on lcols rcols sl sr l r =
     map (\<lambda>kv. (rename_col on rcols sl (fst kv), snd kv)) l @
     map (\<lambda>kv. (rename_col on lcols sr (fst kv), snd kv)) (filter (\<lambda>kv. fst kv \<noteq> on) r)"

definition pd_merge_inner :: "string \<Rightarrow> string \<Rightarrow> string \<Rightarrow> row list \<Rightarrow> row list \<Rightarrow> row list" where
  "pd_merge_inner on sl sr left right =
     concat (map (\<lambda>l. concat (map (\<lambda>r.
       if map_of l on = map_of r on
       then [merge_row on (df_columns left) (df_columns right) sl sr l r] else []) right)) left)"

definition tab_merge :: "row list \<Rightarrow> row list \<Rightarrow> row list" where
  "tab_merge df_cte df_nfe = pd_merge_inner ''Chave NF'' ''_CTE'' ''_NFE'' df_cte df_nfe"

subsection \<open>Sample documents\<close>









definition sample_unzip :: zip_reader where
  "sample_unzip b =
     (if b = ''PK'' then Some [(''a.xml'', ''<a/>''), (''notes.txt'', ''hi''), (''dir/B.XML'', ''<b/>'')]
      else None)"

definition sample_cte_table :: "row list" where
  "sample_cte_table =
     [[(''Data'', ''10/05/2023''), (''Emitente'', ''ACME''), (''Chave NF'', ''A''), (''Arquivo'', ''c1.xml'')],
      [(''Data'', ''11/05/2023''), (''Emitente'', ''ACME''), (''Chave NF'', ''B''), (''Arquivo'', ''c2.xml'')]]"

definition sample_nfe_table :: "row list" where
  "sample_nfe_table =
     [[(''Data'', ''09/05/2023''), (''Chave NF'', ''B''), (''Emitente NF'', ''Loja''), (''Arquivo'', ''n1.xml'')],
      [(''Data'', ''08/05/2023''), (''Chave NF'', ''C''), (''Emitente NF'', ''Loja''), (''Arquivo'', ''n2.xml'')]]"

section \<open>Properties\<close>

subsection \<open>Helper facts\<close>

lemma strip_no_space:
  assumes "\<forall>c \<in> set s. \<not> is_space c"
  shows "strip s = s"
proof -
  have a: "dropWhile is_space s = s"
    using assms by (cases s) auto
  have "\<forall>c \<in> set (rev s). \<not> is_space c"
    using assms by simp
  then have b: "dropWhile is_space (rev s) = rev s"
    by (cases "rev s") auto
  show ?thesis
    by (simp add: strip_def a b)
qed

subsection \<open>Digits, grouping and rounding\<close>

declare show_nat.simps [simp del] group_nat.simps [simp del]

lemma mod10_cases:
  "d mod 10 = 0 \<or> d mod 10 = 1 \<or> d mod 10 = 2 \<or> d mod 10 = 3 \<or> d mod 10 = 4 \<or>
   d mod 10 = 5 \<or> d mod 10 = 6 \<or> d mod 10 = 7 \<or> d mod 10 = 8 \<or> d mod 10 = (9::nat)"
  by arith

lemma digit_chr_is_digit: "is_digit (digit_chr d)"
  using mod10_cases [of d]
  by (elim disjE) (simp_all add: is_digit_def digit_chr_def digit_chars_def)

lemma digit_val_digit_chr: "digit_val (digit_chr d) = d mod 10"
  using mod10_cases [of d]
  by (elim disjE) (simp_all add: digit_val_def digit_chr_def digit_chars_def)

lemma digit_chr_mod: "digit_chr (d mod 10) = digit_chr d"
  by (simp add: digit_chr_def)

lemma show_nat_digits: "list_all is_digit (show_nat n)"
proof (induction n rule: show_nat.induct)
  case (1 n)
  then show ?case
    by (subst show_nat.simps) (simp add: digit_chr_is_digit)
qed

lemma show_nat_nonempty: "show_nat n \<noteq> []"
  by (subst show_nat.simps) simp

lemma nat_of_digits_snoc: "nat_of_digits (ds @ [c]) = 10 * nat_of_digits ds + digit_val c"
  by (simp add: nat_of_digits_def)

lemma nat_of_digits_show_nat: "nat_of_digits (show_nat n) = n"
proof (induction n rule: show_nat.induct)
  case (1 n)
  show ?case
  proof (cases "n < 10")
    case True
    then show ?thesis
      by (subst show_nat.simps) (simp add: nat_of_digits_def digit_val_digit_chr)
  next
    case False
    with 1 have "nat_of_digits (show_nat (n div 10)) = n div 10" by simp
    with False show ?thesis
      by (subst show_nat.simps) (simp add: nat_of_digits_snoc digit_val_digit_chr)
  qed
qed

lemma mod_div_shift: "(n::nat) mod (a * b) div a = n div a mod b"
proof (cases "a = 0")
  case True
  then show ?thesis by simp
next
  case False
  have "n mod (a * b) = a * (n div a mod b) + n mod a"
    by (rule mod_mult2_eq)
  with False show ?thesis by simp
qed

lemma pad3_mod: "pad3 (n mod 1000) = [digit_chr (n div 100), digit_chr (n div 10), digit_chr n]"
proof -
  have h1: "n mod 1000 div 100 = n div 100 mod 10"
    using mod_div_shift [of n 100 10] by simp
  have "n mod 1000 div 10 = n div 10 mod 100"
    using mod_div_shift [of n 10 100] by simp
  moreover have "n div 10 mod 100 mod 10 = n div 10 mod 10"
    by (simp add: mod_mod_cancel)
  ultimately have h2: "(n mod 1000 div 10) mod 10 = n div 10 mod 10"
    by simp
  have h3: "(n mod 1000) mod 10 = n mod 10"
    by (simp add: mod_mod_cancel)
  have e1: "digit_chr (n mod 1000 div 100) = digit_chr (n div 100)"
    using digit_chr_mod [of "n div 100"] by (simp add: h1)
  have e2: "digit_chr (n mod 1000 div 10) = digit_chr (n div 10)"
    using digit_chr_mod [of "n mod 1000 div 10"] digit_chr_mod [of "n div 10"] by (simp only: h2)
  have e3: "digit_chr (n mod 1000) = digit_chr n"
    using digit_chr_mod [of "n mod 1000"] digit_chr_mod [of n] by (simp only: h3)
  show ?thesis
    by (simp only: pad3_def e1 e2 e3)
qed

lemma show_nat_step: "\<not> n < 10 \<Longrightarrow> show_nat n = show_nat (n div 10) @ [digit_chr n]"
  by (subst show_nat.simps) (simp only: if_False)

lemma show_nat_thousands:
  assumes "1000 \<le> n"
  shows "show_nat n = show_nat (n div 1000) @ pad3 (n mod 1000)"
proof -
  have b1: "\<not> n < 10" using assms by simp
  have b2: "\<not> n div 10 < 10" using assms by (simp add: div_less_iff_less_mult)
  have b3: "\<not> n div 10 div 10 < 10" using assms by (simp add: div_less_iff_less_mult)
  have d1: "n div 10 div 10 = n div 100" by (simp add: div_mult2_eq [symmetric])
  have d2: "n div 100 div 10 = n div 1000" by (simp add: div_mult2_eq [symmetric])
  have "show_nat n = (show_nat (n div 10 div 10 div 10) @ [digit_chr (n div 10 div 10)])
                       @ [digit_chr (n div 10)] @ [digit_chr n]"
    by (simp only: show_nat_step [OF b1] show_nat_step [OF b2] show_nat_step [OF b3] append_assoc)
  then show ?thesis
    by (simp only: d1 d2 pad3_mod append_assoc append_Cons append_Nil)
qed

lemma comma_not_digit: "\<not> is_digit (CHR '','')"
  by (simp add: is_digit_def digit_chars_def)

lemma filter_digits:
  "list_all is_digit ds \<Longrightarrow> filter (\<lambda>c. c \<noteq> CHR '','') ds = ds"
  by (induction ds) (auto simp: comma_not_digit)

lemma pad3_digits: "list_all is_digit (pad3 n)"
  by (simp add: pad3_def digit_chr_is_digit)

lemma pad2_digits: "list_all is_digit (pad2 n)"
  by (simp add: pad2_def digit_chr_is_digit)

lemma group_nat_filter: "filter (\<lambda>c. c \<noteq> CHR '','') (group_nat n) = show_nat n"
proof (induction n rule: group_nat.induct)
  case (1 n)
  show ?case
  proof (cases "n < 1000")
    case True
    then show ?thesis
      by (subst group_nat.simps) (simp add: filter_digits show_nat_digits)
  next
    case False
    with 1 have ih: "filter (\<lambda>c. c \<noteq> CHR '','') (group_nat (n div 1000)) = show_nat (n div 1000)"
      by simp
    from False have "show_nat n = show_nat (n div 1000) @ pad3 (n mod 1000)"
      by (simp add: show_nat_thousands)
    with False ih show ?thesis
      by (subst group_nat.simps) (simp add: filter_digits pad3_digits)
  qed
qed

lemma group_nat_chars: "list_all (\<lambda>c. is_digit c \<or> c = CHR '','') (group_nat n)"
proof (induction n rule: group_nat.induct)
  case (1 n)
  show ?case
  proof (cases "n < 1000")
    case True
    have "list_all (\<lambda>c. is_digit c \<or> c = CHR '','') (show_nat n)"
      using show_nat_digits [of n] by (simp add: list_all_iff)
    with True show ?thesis
      by (subst group_nat.simps) simp
  next
    case False
    with 1 have ih: "list_all (\<lambda>c. is_digit c \<or> c = CHR '','') (group_nat (n div 1000))"
      by simp
    with False show ?thesis
      by (subst group_nat.simps) (simp add: pad3_def digit_chr_is_digit)
  qed
qed

lemma str_replace_Nil: "str_replace a new [] = []"
  by (simp add: str_replace_def)

lemma str_replace_append: "str_replace a new (xs @ ys) = str_replace a new xs @ str_replace a new ys"
  by (simp add: str_replace_def)

lemma str_replace_Cons:
  "str_replace a new (c # s) = (if c = a then new else [c]) @ str_replace a new s"
  by (simp add: str_replace_def)

lemma unswap_filter:
  "str_replace (CHR '','') ''.'' (str_replace (CHR ''.'') [] (locale_swap s))
     = filter (\<lambda>c. c \<noteq> CHR '','' \<and> c \<noteq> CHR ''_'') s"
proof (induction s)
  case Nil
  show ?case by (simp add: locale_swap_def str_replace_Nil)
next
  case (Cons c s)
  then show ?case
    by (simp add: locale_swap_def str_replace_Cons str_replace_append str_replace_Nil)
qed

lemma round_half_even_uminus: "round_half_even (- q) = - round_half_even q"
proof (cases "q \<in> \<int>")
  case True
  then obtain k where "q = of_int k" by (auto elim: Ints_cases)
  then show ?thesis by (simp add: round_half_even_def)
next
  case False
  then have ne: "q \<noteq> of_int \<lfloor>q\<rfloor>"
    by (metis Ints_of_int)
  then have fl: "\<lfloor>- q\<rfloor> = - \<lfloor>q\<rfloor> - 1"
    by (simp add: floor_minus ceiling_altdef)
  show ?thesis
    by (auto simp: round_half_even_def Let_def fl)
qed

lemma round_half_even_nonneg: "0 \<le> q \<Longrightarrow> 0 \<le> round_half_even q"
  by (auto simp: round_half_even_def Let_def)

lemma is_digit_plain:
  assumes "is_digit c"
  shows "\<not> is_space c" "\<not> is_exp_mark c" "c \<noteq> CHR ''-''" "c \<noteq> CHR ''+''" "c \<noteq> CHR ''.''"
  using assms
  by (auto simp: is_digit_def digit_chars_def is_space_def whitespace_def is_exp_mark_def)

lemma parse_mantissa_plain:
  assumes ds: "list_all is_digit ds" "ds \<noteq> []" and fp: "list_all is_digit fp"
  shows "parse_mantissa (ds @ CHR ''.'' # fp)
           = Some (of_nat (nat_of_digits ds) + of_nat (nat_of_digits fp) / 10 ^ length fp)"
proof -
  have t: "takeWhile is_digit (ds @ CHR ''.'' # fp) = ds"
    using ds(1) by (simp add: takeWhile_append2 list_all_iff is_digit_def digit_chars_def)
  have d: "dropWhile is_digit (ds @ CHR ''.'' # fp) = CHR ''.'' # fp"
    using ds(1) by (simp add: dropWhile_append2 list_all_iff is_digit_def digit_chars_def)
  show ?thesis
    unfolding parse_mantissa_def t d using ds(2) fp by simp
qed

lemma py_float_neg:
  assumes "strip (CHR ''-'' # body) = CHR ''-'' # body"
    and "takeWhile (\<lambda>c. \<not> is_exp_mark c) body = body"
    and "dropWhile (\<lambda>c. \<not> is_exp_mark c) body = []"
    and "parse_mantissa body = Some m"
  shows "py_float (CHR ''-'' # body) = Inr (- m)"
  unfolding py_float_def Let_def by (simp add: assms)

lemma py_float_pos:
  assumes "strip (c # r) = c # r" and "c \<noteq> CHR ''-''" and "c \<noteq> CHR ''+''"
    and "takeWhile (\<lambda>c. \<not> is_exp_mark c) (c # r) = c # r"
    and "dropWhile (\<lambda>c. \<not> is_exp_mark c) (c # r) = []"
    and "parse_mantissa (c # r) = Some m"
  shows "py_float (c # r) = Inr m"
  unfolding py_float_def Let_def assms(1) by (simp only: assms list.case if_False sum.case option.case simp_thms)

lemma py_float_plain:
  assumes ds: "list_all is_digit ds" "ds \<noteq> []" and fp: "list_all is_digit fp"
  shows "py_float ((if neg then ''-'' else []) @ ds @ CHR ''.'' # fp)
           = Inr ((if neg then - 1 else 1)
                  * (of_nat (nat_of_digits ds) + of_nat (nat_of_digits fp) / 10 ^ length fp))"
proof -
  define body where "body = ds @ CHR ''.'' # fp"
  obtain c r where cr: "ds = c # r" using ds(2) by (cases ds) auto
  have cdig: "is_digit c" using ds(1) cr by simp
  have body_plain: "\<forall>x \<in> set body. \<not> is_space x \<and> \<not> is_exp_mark x"
    using ds(1) fp is_digit_plain(1,2)
    by (auto simp: body_def list_all_iff is_space_def whitespace_def is_exp_mark_def)
  have tk: "takeWhile (\<lambda>c. \<not> is_exp_mark c) body = body"
    using body_plain by (simp add: takeWhile_eq_all_conv)
  have dr: "dropWhile (\<lambda>c. \<not> is_exp_mark c) body = []"
    using body_plain by (simp add: dropWhile_eq_Nil_conv)
  have pm: "parse_mantissa body = Some (of_nat (nat_of_digits ds) + of_nat (nat_of_digits fp) / 10 ^ length fp)"
    unfolding body_def by (rule parse_mantissa_plain [OF ds fp])
  show ?thesis
  proof (cases neg)
    case True
    have "\<forall>x \<in> set (CHR ''-'' # body). \<not> is_space x"
      using body_plain by (auto simp: is_space_def whitespace_def)
    then have st: "strip (CHR ''-'' # body) = CHR ''-'' # body" by (rule strip_no_space)
    from True py_float_neg [OF st tk dr pm] show ?thesis
      by (simp add: body_def)
  next
    case False
    have b: "body = c # (r @ CHR ''.'' # fp)" by (simp add: body_def cr)
    have "\<forall>x \<in> set body. \<not> is_space x"
      using body_plain by simp
    then have st: "strip body = body" by (rule strip_no_space)
    have "py_float (c # (r @ CHR ''.'' # fp)) = Inr (of_nat (nat_of_digits ds) + of_nat (nat_of_digits fp) / 10 ^ length fp)"
      using st is_digit_plain(3,4) [OF cdig] tk dr pm unfolding b
      by (rule py_float_pos)
    with False show ?thesis
      by (simp add: cr)
  qed
qed

lemma filter_plain_digits:
  "list_all is_digit ds \<Longrightarrow> filter (\<lambda>c. c \<noteq> CHR '','' \<and> c \<noteq> CHR ''_'') ds = ds"
  by (induction ds) (auto simp: is_digit_def digit_chars_def)

lemma group_nat_filter2:
  "filter (\<lambda>c. c \<noteq> CHR '','' \<and> c \<noteq> CHR ''_'') (group_nat n) = show_nat n"
proof -
  have "filter (\<lambda>c. c \<noteq> CHR '','' \<and> c \<noteq> CHR ''_'') (group_nat n)
          = filter (\<lambda>c. c \<noteq> CHR '','' \<and> c \<noteq> CHR ''_'') (filter (\<lambda>c. c \<noteq> CHR '','') (group_nat n))"
    by (simp add: conj_commute conj_left_commute)
  also have "\<dots> = filter (\<lambda>c. c \<noteq> CHR '','' \<and> c \<noteq> CHR ''_'') (show_nat n)"
    by (simp only: group_nat_filter)
  also have "\<dots> = show_nat n"
    by (rule filter_plain_digits [OF show_nat_digits])
  finally show ?thesis .
qed

lemma nat_of_digits_pad2: "m < 100 \<Longrightarrow> nat_of_digits (pad2 m) = m"
proof -
  assume "m < 100"
  then have "m div 10 < 10" by simp
  then have "m div 10 mod 10 = m div 10" by simp
  then show ?thesis
    by (simp add: pad2_def nat_of_digits_def digit_val_digit_chr)
qed

lemma unswap_format:
  "str_replace (CHR '','') ''.'' (str_replace (CHR ''.'') [] (locale_swap (format_comma_2f v)))
     = (if v < 0 then ''-'' else []) @
       show_nat (nat (round_half_even (\<bar>v\<bar> * 100)) div 100) @
       CHR ''.'' # pad2 (nat (round_half_even (\<bar>v\<bar> * 100)) mod 100)"
  by (simp add: unswap_filter format_comma_2f_def Let_def group_nat_filter2
        filter_plain_digits [OF pad2_digits])

lemma signed_hundredths:
  "(if v < 0 then - 1 else 1) * (of_nat (nat (round_half_even (\<bar>v\<bar> * 100))) / 100) = round2 v"
proof (cases "v < 0")
  case True
  have "round_half_even (\<bar>v\<bar> * 100) = - round_half_even (v * 100)"
    using True round_half_even_uminus [of "v * 100"] by (simp add: abs_if)
  moreover have "0 \<le> round_half_even (\<bar>v\<bar> * 100)"
    by (rule round_half_even_nonneg) simp
  ultimately show ?thesis
    using True by (simp add: round2_def)
next
  case False
  have "0 \<le> round_half_even (v * 100)"
    using False by (intro round_half_even_nonneg) simp
  with False show ?thesis
    by (simp add: round2_def abs_if)
qed

lemma hundredths_split:
  "(of_nat (n div 100) :: rat) + of_nat (n mod 100) / 100 = of_nat n / 100"
proof -
  have "n = 100 * (n div 100) + n mod 100" by simp
  then have "(of_nat n :: rat) = 100 * of_nat (n div 100) + of_nat (n mod 100)"
    by (metis of_nat_add of_nat_mult of_nat_numeral)
  then show ?thesis by simp
qed





subsection \<open>Paths in a document\<close>






subsection \<open>The rows of a CT-e\<close>













subsection \<open>The sample manifest\<close>








subsection \<open>Reading archive members\<close>

lemma zf_read_member:
  assumes "n \<in> fst ` set members"
  shows "\<exists>b. zf_read members n = Inr b \<and> (n, b) \<in> set members"
proof -
  from assms have "n \<in> fst ` set (rev members)" by simp
  then obtain b where b: "map_of (rev members) n = Some b"
    by (metis domIff dom_map_of_conv_image_fst not_Some_eq)
  then have "(n, b) \<in> set (rev members)" by (rule map_of_SomeD)
  with b show ?thesis by (simp add: zf_read_def)
qed

lemma traverse_map_fst:
  assumes "\<And>n. n \<in> set ns \<Longrightarrow> \<exists>b. f n = Inr (n, b) \<and> P n b"
  shows "\<exists>out. traverse f ns = Inr out \<and> map fst out = ns \<and> (\<forall>nb \<in> set out. P (fst nb) (snd nb))"
  using assms
proof (induction ns)
  case Nil
  then show ?case by simp
next
  case (Cons n ns)
  then obtain b where b: "f n = Inr (n, b)" "P n b" by auto
  from Cons obtain out where out: "traverse f ns = Inr out" "map fst out = ns"
    "\<forall>nb \<in> set out. P (fst nb) (snd nb)" by auto
  with b show ?case by simp
qed

subsection \<open>The join as a filtered product\<close>

lemma concat_if_filter:
  "concat (map (\<lambda>r. if P r then [g r] else []) rs) = map g (filter P rs)"
  by (induction rs) simp_all

lemma join_as_product:
  "concat (map (\<lambda>l. map (g l) (filter (P l) rs)) ls)
     = map (\<lambda>lr. g (fst lr) (snd lr)) (filter (\<lambda>lr. P (fst lr) (snd lr)) (List.product ls rs))"
  by (induction ls) (simp_all add: filter_map o_def)

lemma pd_merge_inner_product:
  "pd_merge_inner on sl sr left right =
     map (\<lambda>lr. merge_row on (df_columns left) (df_columns right) sl sr (fst lr) (snd lr))
       (filter (\<lambda>lr. map_of (fst lr) on = map_of (snd lr) on) (List.product left right))"
  unfolding pd_merge_inner_def concat_if_filter
  by (rule join_as_product)

lemma map_of_rename_keeps:
  assumes "\<And>k. (on = f k) = (on = k)"
  shows "map_of (map (\<lambda>kv. (f (fst kv), snd kv)) l) on = map_of l on"
  by (induction l) (simp_all add: assms)

lemma map_of_rename_none:
  assumes "\<And>k. k \<noteq> on \<Longrightarrow> on \<noteq> f k"
  shows "map_of (map (\<lambda>kv. (f (fst kv), snd kv)) (filter (\<lambda>kv. fst kv \<noteq> on) r)) on = None"
  by (induction r) (simp_all add: assms)

lemma suffixed_not_key:
  "''Chave NF'' \<noteq> k @ ''_CTE''" "''Chave NF'' \<noteq> k @ ''_NFE''"
proof -
  have "last (k @ ''_CTE'') \<noteq> last ''Chave NF''" "last (k @ ''_NFE'') \<noteq> last ''Chave NF''"
    by simp_all
  then show "''Chave NF'' \<noteq> k @ ''_CTE''" "''Chave NF'' \<noteq> k @ ''_NFE''"
    by metis+
qed

lemma merge_row_key:
  "map_of (merge_row ''Chave NF'' lc rc ''_CTE'' ''_NFE'' l r) ''Chave NF'' = map_of l ''Chave NF''"
proof -
  have a: "(''Chave NF'' = rename_col ''Chave NF'' rc ''_CTE'' k) = (''Chave NF'' = k)" for k
    using suffixed_not_key(1) [of k] by (auto simp: rename_col_def)
  have b: "''Chave NF'' \<noteq> rename_col ''Chave NF'' lc ''_NFE'' k" if "k \<noteq> ''Chave NF''" for k
    using suffixed_not_key(2) [of k] that by (auto simp: rename_col_def)
  have l: "map_of (map (\<lambda>kv. (rename_col ''Chave NF'' rc ''_CTE'' (fst kv), snd kv)) l) ''Chave NF''
      = map_of l ''Chave NF''"
    using a by (rule map_of_rename_keeps)
  have r: "map_of (map (\<lambda>kv. (rename_col ''Chave NF'' lc ''_NFE'' (fst kv), snd kv))
      (filter (\<lambda>kv. fst kv \<noteq> ''Chave NF'') r)) ''Chave NF'' = None"
    using b by (rule map_of_rename_none)
  have c: "(case x of None \<Rightarrow> None | Some y \<Rightarrow> Some y) = x" for x :: "string option"
    by (cases x) simp_all
  show ?thesis
    unfolding merge_row_def map_of_append map_add_def
    by (simp only: l r c)
qed

subsection \<open>C9: the freight-term formatter\<close>



subsection \<open>C8: the money formatter\<close>


subsection \<open>C10: formatting, then full parsing\<close>

text \<open>
  C10. For every number \<open>v\<close>, \<open>br_money\<close> returns a text and \<open>str_to_float_br\<close> reads
  that text back as \<open>v\<close> rounded to two decimal places, the value the text shows.
\<close>

theorem money_roundtrip:
  "br_money (Float v) = Inr (locale_swap (format_comma_2f v)) \<and>
   str_to_float_br (locale_swap (format_comma_2f v)) = Inr (round2 v)"
proof
  show "br_money (Float v) = Inr (locale_swap (format_comma_2f v))"
    by (simp add: br_money_def)
next
  define n where "n = nat (round_half_even (\<bar>v\<bar> * 100))"
  define t where "t = (if v < 0 then ''-'' else []) @ show_nat (n div 100) @ CHR ''.'' # pad2 (n mod 100)"
  have un: "str_replace (CHR '','') ''.'' (str_replace (CHR ''.'') [] (locale_swap (format_comma_2f v))) = t"
    unfolding t_def n_def by (rule unswap_format)
  have val: "py_float t = Inr ((if v < 0 then - 1 else 1) * (of_nat n / 100))"
  proof -
    have "py_float t = Inr ((if v < 0 then - 1 else 1)
             * (of_nat (nat_of_digits (show_nat (n div 100)))
                + of_nat (nat_of_digits (pad2 (n mod 100))) / 10 ^ length (pad2 (n mod 100))))"
      unfolding t_def
      by (rule py_float_plain [OF show_nat_digits show_nat_nonempty pad2_digits])
    also have "nat_of_digits (pad2 (n mod 100)) = n mod 100"
      by (rule nat_of_digits_pad2) simp
    also have "length (pad2 (n mod 100)) = 2"
      by (simp add: pad2_def)
    finally show ?thesis
      by (simp add: nat_of_digits_show_nat hundredths_split)
  qed
  have ne: "locale_swap (format_comma_2f v) \<noteq> []"
  proof
    assume "locale_swap (format_comma_2f v) = []"
    with un have "t = []" by (simp add: str_replace_Nil)
    then show False by (simp add: t_def)
  qed
  show "str_to_float_br (locale_swap (format_comma_2f v)) = Inr (round2 v)"
    using ne un val signed_hundredths [of v]
    by (simp add: str_to_float_br_def n_def)
qed

subsection \<open>C1: documents that are skipped\<close>




subsection \<open>C2: the invoice key\<close>


subsection \<open>C3: one record per referenced invoice key\<close>



subsection \<open>C4: the total cargo weight\<close>



subsection \<open>C7: value per ton\<close>



subsection \<open>C6: expanding uploads\<close>

text \<open>
  C6. An upload whose name ends in \<open>.xml\<close> (in any letter case) passes through as the
  single pair of its name and bytes. Any other upload is read as an archive: the result has
  one pair per member whose name ends in \<open>.xml\<close>, in archive order and under the
  in-archive name, each a member of the archive, and the other members are left out. The
  pairs of several uploads are appended in upload order. An archive with two XML members and
  one other member expands to exactly two pairs.
\<close>

theorem archive_expansion:
  "(is_xml_name (fst f) \<longrightarrow> load_files unzip [f] = Inr [f]) \<and>
   (\<not> is_xml_name (fst f) \<and> unzip (snd f) = Some members \<longrightarrow>
      (\<exists>out. load_files unzip [f] = Inr out \<and>
         map fst out = filter is_xml_name (map fst members) \<and>
         (\<forall>nb \<in> set out. nb \<in> set members \<and> zf_read members (fst nb) = Inr (snd nb)))) \<and>
   (load_files unzip [f] = Inr xs \<and> load_files unzip fs = Inr ys \<longrightarrow>
      load_files unzip (f # fs) = Inr (xs @ ys)) \<and>
   (\<exists>out. load_files sample_unzip [(''docs.zip'', ''PK'')] = Inr out \<and> length out = 2)"
proof (intro conjI impI)
  assume "is_xml_name (fst f)"
  then show "load_files unzip [f] = Inr [f]"
    by (simp add: load_files_def expand_upload_def)
next
  assume a: "\<not> is_xml_name (fst f) \<and> unzip (snd f) = Some members"
  let ?ns = "filter is_xml_name (map fst members)"
  have "\<exists>b. read_member members n = Inr (n, b) \<and> ((n, b) \<in> set members \<and> zf_read members n = Inr b)"
    if "n \<in> set ?ns" for n
  proof -
    from that have "n \<in> fst ` set members" by auto
    from zf_read_member [OF this] show ?thesis
      by (auto simp: read_member_def)
  qed
  from traverse_map_fst [of ?ns "read_member members"
      "\<lambda>n b. (n, b) \<in> set members \<and> zf_read members n = Inr b", OF this]
  obtain out where out: "traverse (read_member members) ?ns = Inr out" "map fst out = ?ns"
    "\<forall>nb \<in> set out. (fst nb, snd nb) \<in> set members \<and> zf_read members (fst nb) = Inr (snd nb)"
    by blast
  from a out(1) have "load_files unzip [f] = Inr out"
    by (simp add: load_files_def expand_upload_def)
  with out(2,3) show "\<exists>out. load_files unzip [f] = Inr out \<and>
         map fst out = filter is_xml_name (map fst members) \<and>
         (\<forall>nb \<in> set out. nb \<in> set members \<and> zf_read members (fst nb) = Inr (snd nb))"
    by auto
next
  assume "load_files unzip [f] = Inr xs \<and> load_files unzip fs = Inr ys"
  then show "load_files unzip (f # fs) = Inr (xs @ ys)"
    by (auto simp: load_files_def split: sum.splits)
next
  show "\<exists>out. load_files sample_unzip [(''docs.zip'', ''PK'')] = Inr out \<and> length out = 2"
    by (simp add: load_files_def expand_upload_def is_xml_name_def endswith_def lower_def
          lower_chr_def read_member_def zf_read_def sample_unzip_def)
qed

theorem archive_expansion_witness:
  "\<not> is_xml_name ''docs.zip'' \<and>
   load_files sample_unzip [(''docs.zip'', ''PK'')] = Inr [(''a.xml'', ''<a/>''), (''dir/B.XML'', ''<b/>'')] \<and>
   load_files sample_unzip [(''p.xml'', ''<p/>'')] = Inr [(''p.xml'', ''<p/>'')] \<and>
   load_files sample_unzip [(''p.xml'', ''<p/>''), (''docs.zip'', ''PK'')] =
     Inr [(''p.xml'', ''<p/>''), (''a.xml'', ''<a/>''), (''dir/B.XML'', ''<b/>'')]"
proof -
  have n: "\<not> is_xml_name ''docs.zip''" "is_xml_name ''p.xml''"
    by (simp_all add: is_xml_name_def endswith_def lower_def lower_chr_def)
  have z: "load_files sample_unzip [(''docs.zip'', ''PK'')] = Inr [(''a.xml'', ''<a/>''), (''dir/B.XML'', ''<b/>'')]"
    by (simp add: load_files_def expand_upload_def is_xml_name_def endswith_def lower_def
          lower_chr_def read_member_def zf_read_def sample_unzip_def)
  from archive_expansion [where f = "(''p.xml'', ''<p/>'')" and unzip = sample_unzip
      and fs = "[(''docs.zip'', ''PK'')]" and xs = "[(''p.xml'', ''<p/>'')]"
      and ys = "[(''a.xml'', ''<a/>''), (''dir/B.XML'', ''<b/>'')]"] n z
  show ?thesis by simp
qed

subsection \<open>C5: joining the two tables\<close>

text \<open>
  C5. The join of the manifest table with the invoice table is the inner join on the
  invoice key under equality of the key texts: its rows are exactly the pairs of a manifest
  row and an invoice row with the same key, in the order of the manifest rows; a merged row
  carries that key; its columns are the manifest row's, then the invoice row's without the
  key, where a name that both tables have gets the suffix \<open>_CTE\<close> or \<open>_NFE\<close>. Joining
  a manifest table with keys A, B and an invoice table with keys B, C gives one row, keyed B.
\<close>

theorem inner_join_on_key:
  "tab_merge df_cte df_nfe =
     map (\<lambda>lr. merge_row ''Chave NF'' (df_columns df_cte) (df_columns df_nfe) ''_CTE'' ''_NFE''
                 (fst lr) (snd lr))
       (filter (\<lambda>lr. map_of (fst lr) ''Chave NF'' = map_of (snd lr) ''Chave NF'')
          (List.product df_cte df_nfe)) \<and>
   (\<forall>m \<in> set (tab_merge df_cte df_nfe). \<exists>l \<in> set df_cte. \<exists>r \<in> set df_nfe.
      map_of l ''Chave NF'' = map_of r ''Chave NF'' \<and>
      map_of m ''Chave NF'' = map_of l ''Chave NF'' \<and>
      map fst m =
        map (rename_col ''Chave NF'' (df_columns df_nfe) ''_CTE'') (map fst l) @
        map (rename_col ''Chave NF'' (df_columns df_cte) ''_NFE'')
          (filter (\<lambda>k. k \<noteq> ''Chave NF'') (map fst r))) \<and>
   tab_merge sample_cte_table sample_nfe_table =
     [[(''Data_CTE'', ''11/05/2023''), (''Emitente'', ''ACME''), (''Chave NF'', ''B''),
       (''Arquivo_CTE'', ''c2.xml''), (''Data_NFE'', ''09/05/2023''), (''Emitente NF'', ''Loja''),
       (''Arquivo_NFE'', ''n1.xml'')]]"
proof (intro conjI ballI)
  show "tab_merge df_cte df_nfe =
     map (\<lambda>lr. merge_row ''Chave NF'' (df_columns df_cte) (df_columns df_nfe) ''_CTE'' ''_NFE''
                 (fst lr) (snd lr))
       (filter (\<lambda>lr. map_of (fst lr) ''Chave NF'' = map_of (snd lr) ''Chave NF'')
          (List.product df_cte df_nfe))"
    unfolding tab_merge_def by (rule pd_merge_inner_product)
next
  fix m assume "m \<in> set (tab_merge df_cte df_nfe)"
  then obtain l r where lr: "l \<in> set df_cte" "r \<in> set df_nfe"
      "map_of l ''Chave NF'' = map_of r ''Chave NF''"
      "m = merge_row ''Chave NF'' (df_columns df_cte) (df_columns df_nfe) ''_CTE'' ''_NFE'' l r"
    unfolding tab_merge_def pd_merge_inner_product by auto
  have cols: "map fst m =
        map (rename_col ''Chave NF'' (df_columns df_nfe) ''_CTE'') (map fst l) @
        map (rename_col ''Chave NF'' (df_columns df_cte) ''_NFE'')
          (filter (\<lambda>k. k \<noteq> ''Chave NF'') (map fst r))"
    unfolding lr(4) merge_row_def by (simp add: filter_map o_def)
  from lr cols merge_row_key [of "df_columns df_cte" "df_columns df_nfe" l r]
  show "\<exists>l \<in> set df_cte. \<exists>r \<in> set df_nfe.
      map_of l ''Chave NF'' = map_of r ''Chave NF'' \<and>
      map_of m ''Chave NF'' = map_of l ''Chave NF'' \<and>
      map fst m =
        map (rename_col ''Chave NF'' (df_columns df_nfe) ''_CTE'') (map fst l) @
        map (rename_col ''Chave NF'' (df_columns df_cte) ''_NFE'')
          (filter (\<lambda>k. k \<noteq> ''Chave NF'') (map fst r))"
    by blast
next
  show "tab_merge sample_cte_table sample_nfe_table =
     [[(''Data_CTE'', ''11/05/2023''), (''Emitente'', ''ACME''), (''Chave NF'', ''B''),
       (''Arquivo_CTE'', ''c2.xml''), (''Data_NFE'', ''09/05/2023''), (''Emitente NF'', ''Loja''),
       (''Arquivo_NFE'', ''n1.xml'')]]"
    by (simp add: tab_merge_def pd_merge_inner_def merge_row_def rename_col_def df_columns_def
          sample_cte_table_def sample_nfe_table_def)
qed

theorem inner_join_on_key_witness:
  "length (tab_merge sample_cte_table sample_nfe_table) = 1 \<and>
   map (\<lambda>m. map_of m ''Chave NF'') (tab_merge sample_cte_table sample_nfe_table) = [Some ''B''] \<and>
   map (\<lambda>r. map_of r ''Chave NF'') sample_cte_table = [Some ''A'', Some ''B''] \<and>
   map (\<lambda>r. map_of r ''Chave NF'') sample_nfe_table = [Some ''B'', Some ''C'']"
  using inner_join_on_key [of sample_cte_table sample_nfe_table]
  by (simp add: sample_cte_table_def sample_nfe_table_def)

end
